theory Spec2Isabelle
  imports Complex_Main "HOL-Library.Char_ord" "HOL-Library.List_Lexorder" "HOL-Library.AList"
begin

section \<open>The cookie refresh script (scripts/refresh-cookies.js)\<close>

text \<open>
  A shallow embedding of the session acquisition script. The browser is the environment:
  what it shows during one login attempt is an input of the model (\<open>page_run\<close>), and so
  is every reading of the clock. The regular files of the project's root directory (the
  session file \<open>cookies.json\<close> and its backups) are the state. Log lines and screenshots
  go to the sub-directories \<open>logs/\<close> and \<open>screenshots/\<close> and are not part of that state.
\<close>

subsection \<open>String helpers of the JavaScript library\<close>

text \<open>\<open>s.startsWith(p)\<close> and \<open>s.includes(p)\<close>.\<close>

fun startsWith :: "string \<Rightarrow> string \<Rightarrow> bool" where
  "startsWith s [] = True"
| "startsWith [] (p # ps) = False"
| "startsWith (c # cs) (p # ps) = (c = p \<and> startsWith cs ps)"

fun includes_str :: "string \<Rightarrow> string \<Rightarrow> bool" where
  "includes_str [] p = (p = [])"
| "includes_str (c # cs) p = (startsWith (c # cs) p \<or> includes_str cs p)"

text \<open>\<open>s.replace(p, r)\<close> with a string pattern: the first occurrence only.\<close>

fun replace :: "string \<Rightarrow> string \<Rightarrow> string \<Rightarrow> string" where
  "replace [] p r = (if p = [] then r else [])"
| "replace (c # cs) p r =
     (if startsWith (c # cs) p then r @ drop (length p) (c # cs) else c # replace cs p r)"

text \<open>The decimal digits of a number, as a template literal prints an integer.\<close>

definition digit :: "nat \<Rightarrow> char" where
  "digit d = char_of (48 + d)"

fun decimal :: "nat \<Rightarrow> string" where
  "decimal n = (if n < 10 then [digit n] else decimal (n div 10) @ [digit (n mod 10)])"

declare decimal.simps [simp del]

subsection \<open>Cookies\<close>

text \<open>
  A cookie as the browser automation library returns it. A field that the script
  reads through \<open>||\<close> may be undefined (\<open>None\<close>). \<open>expires\<close> is in seconds, and is \<open>-1\<close>
  for a session cookie.
\<close>

record raw_cookie =
  name :: string
  cvalue :: string
  domain :: string
  path :: "string option"
  expires :: real
  httpOnly :: "bool option"
  secure :: "bool option"
  session :: "bool option"
  sameSite :: "string option"

text \<open>The record written to the session file, in the field order of the script.\<close>

record cookie =
  c_domain :: string
  expirationDate :: real
  hostOnly :: bool
  c_httpOnly :: bool
  c_name :: string
  c_path :: string
  c_sameSite :: string
  c_secure :: bool
  c_session :: bool
  storeId :: string
  c_value :: string

definition ESSENTIAL_COOKIES :: "string list" where
  "ESSENTIAL_COOKIES = [''SID'', ''HSID'', ''SSID'', ''APISID'', ''SAPISID'', ''LOGIN_INFO'']"

text \<open>\<open>validateCookies\<close>: both early returns of the script are branches here.\<close>

definition validateCookies :: "raw_cookie list \<Rightarrow> bool" where
  "validateCookies cookies =
     (let cookieNames = map name cookies;
          missingCookies = filter (\<lambda>n. n \<notin> set cookieNames) ESSENTIAL_COOKIES
      in if length missingCookies > 0 then False
         else let emptyCookies =
                    filter (\<lambda>c. name c \<in> set ESSENTIAL_COOKIES \<and> cvalue c = []) cookies
              in if length emptyCookies > 0 then False else True)"

text \<open>\<open>a || b\<close> on the optional fields: an undefined, false or empty left side gives \<open>b\<close>.\<close>

definition or_false :: "bool option \<Rightarrow> bool" where
  "or_false b = (case b of None \<Rightarrow> False | Some v \<Rightarrow> v)"

definition or_string :: "string option \<Rightarrow> string \<Rightarrow> string" where
  "or_string s d = (case s of None \<Rightarrow> d | Some v \<Rightarrow> if v = [] then d else v)"

text \<open>
  One element of \<open>convertCookies\<close>. \<open>now\<close> is the reading of \<open>Date.now()\<close> (milliseconds)
  that the callback would see; it is read only when \<open>expires\<close> is not positive.
\<close>

definition convertCookie :: "nat \<Rightarrow> raw_cookie \<Rightarrow> cookie" where
  "convertCookie now c =
     \<lparr> c_domain = domain c,
       expirationDate = (if expires c > 0 then expires c
                         else real (now div 1000) + 86400 * 365),
       hostOnly = (\<not> startsWith (domain c) ''.''),
       c_httpOnly = or_false (httpOnly c),
       c_name = name c,
       c_path = or_string (path c) ''/'',
       c_sameSite = or_string (sameSite c) ''unspecified'',
       c_secure = or_false (secure c),
       c_session = or_false (session c),
       storeId = ''0'',
       c_value = cvalue c \<rparr>"

text \<open>
  \<open>convertCookies\<close> maps the callback over the array; the callback for element \<open>j\<close> sees
  the clock reading \<open>clock j\<close>.
\<close>

definition convertCookies :: "(nat \<Rightarrow> nat) \<Rightarrow> raw_cookie list \<Rightarrow> cookie list" where
  "convertCookies clock puppeteerCookies =
     map (\<lambda>(j, c). convertCookie (clock j) c) (enumerate 0 puppeteerCookies)"

subsection \<open>The accounts configuration\<close>

text \<open>
  A parsed JSON value, for the parts of the configuration the script reads untyped. An
  object lists each of its keys once.
\<close>

datatype json =
  JNull | JBool bool | JNum int | JStr string | JArr "json list" | JObj "(string \<times> json) list"

text \<open>
  The rotation block, with the types the configuration template gives its fields; a
  field may be absent. \<open>strategy\<close> is never read by the script.
\<close>

record rotation =
  strategy :: "string option"
  failover :: "bool option"
  maxRetries :: "int option"

text \<open>
  What \<open>JSON.parse\<close> returned: \<open>cfg_accounts\<close> is the value of \<open>config.accounts\<close>
  (\<open>None\<close> when undefined), \<open>cfg_rotation\<close> the rotation block (\<open>None\<close> when undefined or
  null).
\<close>

record parsed_config =
  cfg_accounts :: "json option"
  cfg_rotation :: "rotation option"

text \<open>
  The state of \<open>config/accounts.json\<close>: no such file, a file whose reading or parsing
  throws, the JSON text \<open>null\<close>, or a parsed value.
\<close>

datatype config_file = Missing | Malformed | ParsedNull | Parsed parsed_config

record config =
  accounts :: "json list"
  rotation :: "rotation option"

text \<open>\<open>!v\<close> on a JSON value.\<close>

fun falsy :: "json \<Rightarrow> bool" where
  "falsy JNull = True"
| "falsy (JBool b) = (\<not> b)"
| "falsy (JNum n) = (n = 0)"
| "falsy (JStr s) = (s = [])"
| "falsy (JArr xs) = False"
| "falsy (JObj kvs) = False"

text \<open>\<open>v.length === 0\<close> on a JSON value that is not null.\<close>

fun length_is_zero :: "json \<Rightarrow> bool" where
  "length_is_zero (JArr xs) = (length xs = 0)"
| "length_is_zero (JStr s) = (length s = 0)"
| "length_is_zero (JObj kvs) = (map_of kvs ''length'' = Some (JNum 0))"
| "length_is_zero v = False"

text \<open>\<open>acc.enabled\<close> on an element that is not null: \<open>None\<close> is undefined.\<close>

fun enabled_of :: "json \<Rightarrow> json option" where
  "enabled_of (JObj kvs) = map_of kvs ''enabled''"
| "enabled_of v = None"

text \<open>
  \<open>loadAccountsConfig\<close>. Every \<open>return null\<close> of the script is a \<open>None\<close> here, the
  ones of the \<open>catch\<close> block included: reading a property of \<open>null\<close> throws (the
  text \<open>null\<close>, or a null element of the array, whose \<open>enabled\<close> the filter reads), and so
  does calling \<open>filter\<close> on a value that is not an array.
\<close>

definition loadAccountsConfig :: "config_file \<Rightarrow> config option" where
  "loadAccountsConfig source =
     (case source of
        Missing \<Rightarrow> None
      | Malformed \<Rightarrow> None
      | ParsedNull \<Rightarrow> None
      | Parsed c \<Rightarrow>
          (case cfg_accounts c of
             None \<Rightarrow> None
           | Some a \<Rightarrow>
               if falsy a \<or> length_is_zero a then None
               else (case a of
                       JArr xs \<Rightarrow>
                         if JNull \<in> set xs then None
                         else let ys = filter (\<lambda>acc. enabled_of acc \<noteq> Some (JBool False)) xs
                              in if length ys = 0 then None
                                 else Some \<lparr> accounts = ys, rotation = cfg_rotation c \<rparr>
                     | _ \<Rightarrow> None)))"

text \<open>\<open>rotation?.maxRetries || 3\<close> and \<open>rotation?.failover !== false\<close>.\<close>

definition maxRetriesPerAccount :: "rotation option \<Rightarrow> int" where
  "maxRetriesPerAccount rot =
     (case rot of
        None \<Rightarrow> 3
      | Some r \<Rightarrow> (case maxRetries r of None \<Rightarrow> 3 | Some n \<Rightarrow> if n = 0 then 3 else n))"

definition failover_not_false :: "rotation option \<Rightarrow> bool" where
  "failover_not_false rot = (case rot of None \<Rightarrow> True | Some r \<Rightarrow> failover r \<noteq> Some False)"

subsection \<open>One login attempt\<close>

text \<open>
  What the browser did during one call of \<open>attemptLogin\<close>:
  \<^item> \<open>Escapes\<close>: \<open>browser.newPage()\<close> or \<open>page.close()\<close> threw, so the exception leaves
    \<open>attemptLogin\<close>;
  \<^item> \<open>BodyThrows\<close>: a call inside the \<open>try\<close> block threw (a navigation or selector
    timeout, for instance);
  \<^item> \<open>NoPasswordField content\<close>: the password field did not appear; \<open>content\<close> is the
    page's HTML;
  \<^item> \<open>PasswordSubmitted content loggedIn cookies\<close>: the password was submitted;
    \<open>content\<close> is the HTML after that, \<open>loggedIn\<close> the result of the avatar probe and
    \<open>cookies\<close> what \<open>page.cookies\<close> returned.
\<close>

datatype page_run =
  Escapes
| BodyThrows
| NoPasswordField string
| PasswordSubmitted string bool "raw_cookie list"

text \<open>The line the attempt logs about its end.\<close>

datatype attempt_log =
  CaptchaDetected | AccountNotFound | VerificationRequired | PasswordFieldMissing
| TwoFactorRequired | WrongPassword | CookieValidationFailed | LoginSuccessful
| LoginAttemptFailed

definition relevant_domain :: "raw_cookie \<Rightarrow> bool" where
  "relevant_domain c =
     (includes_str (domain c) ''youtube.com'' \<or> includes_str (domain c) ''google.com''
      \<or> includes_str (domain c) ''.google.'')"

text \<open>
  \<open>attemptLogin\<close>, from the wait for the password field on. The result is \<open>None\<close> when
  the exception escapes, and otherwise the logged line with the returned value: \<open>None\<close>
  for \<open>null\<close>, or the converted cookies.
\<close>

definition attemptLogin ::
  "(nat \<Rightarrow> nat) \<Rightarrow> page_run \<Rightarrow> (attempt_log \<times> cookie list option) option" where
  "attemptLogin clock run =
     (case run of
        Escapes \<Rightarrow> None
      | BodyThrows \<Rightarrow> Some (LoginAttemptFailed, None)
      | NoPasswordField pageContent \<Rightarrow>
          if includes_str pageContent ''captcha-container''
             \<or> includes_str pageContent ''g-recaptcha''
             \<or> includes_str pageContent ''unusual activity''
          then Some (CaptchaDetected, None)
          else if includes_str pageContent (''Couldn'' @ [CHR 0x27] @ ''t find'')
                  \<or> includes_str pageContent (''couldn'' @ [CHR 0x27] @ ''t find'')
                  \<or> includes_str pageContent ''account doesn''
          then Some (AccountNotFound, None)
          else if includes_str pageContent ''verify your identity''
                  \<or> includes_str pageContent ''Verify it''
          then Some (VerificationRequired, None)
          else Some (PasswordFieldMissing, None)
      | PasswordSubmitted pageContentAfterLogin loggedIn cookies \<Rightarrow>
          if includes_str pageContentAfterLogin ''2-Step Verification''
             \<or> includes_str pageContentAfterLogin ''Verify it''
             \<or> includes_str pageContentAfterLogin ''confirm your identity''
          then Some (TwoFactorRequired, None)
          else if includes_str pageContentAfterLogin ''Wrong password''
                  \<or> includes_str pageContentAfterLogin ''incorrect''
          then Some (WrongPassword, None)
          else let filteredCookies = filter relevant_domain cookies
               in if \<not> validateCookies filteredCookies
                  then Some (CookieValidationFailed, None)
                  else Some (LoginSuccessful, Some (convertCookies clock filteredCookies)))"

subsection \<open>The files of the root directory\<close>

text \<open>
  A file holds either the JSON text of a cookie array (what
  \<open>JSON.stringify(cookies, null, 2)\<close> prints, which the array determines) or any other
  text. The directory lists its regular files by name, each once.
\<close>

datatype file_content = CookieJson "cookie list" | OtherText string

type_synonym dir = "(string \<times> file_content) list"

text \<open>
  The file-system calls of \<open>saveCookies\<close>, on names relative to the root directory:
  the script's paths are \<open>ROOT_DIR\<close> joined with these names, and the path of \<open>ROOT_DIR\<close>
  itself is taken to contain no \<open>.json\<close>, so that the \<open>replace\<close> in the backup's path
  acts on the file name. Sub-directories are not listed. \<open>Rename\<close> is \<open>fs.renameSync\<close>,
  which the script never calls.
\<close>

datatype fs_op =
  CopyFile string string
| Unlink string
| WriteFile string file_content
| Rename string string

definition existsSync :: "dir \<Rightarrow> string \<Rightarrow> bool" where
  "existsSync d p = (p \<in> set (map fst d))"

definition readdirSync :: "dir \<Rightarrow> string list" where
  "readdirSync d = map fst d"

text \<open>
  The effect of one call. Copying or renaming a file that does not exist throws in the
  library; the script copies only after \<open>existsSync\<close>, and here the directory is left as
  it is.
\<close>

fun apply_op :: "dir \<Rightarrow> fs_op \<Rightarrow> dir" where
  "apply_op d (CopyFile src dst) =
     (case map_of d src of None \<Rightarrow> d | Some f \<Rightarrow> AList.update dst f d)"
| "apply_op d (Unlink p) = AList.delete p d"
| "apply_op d (WriteFile p f) = AList.update p f d"
| "apply_op d (Rename src dst) =
     (case map_of d src of None \<Rightarrow> d | Some f \<Rightarrow> AList.update dst f (AList.delete src d))"

definition COOKIES_OUTPUT_PATH :: string where
  "COOKIES_OUTPUT_PATH = ''cookies.json''"

definition backupPath :: "nat \<Rightarrow> string" where
  "backupPath now =
     replace COOKIES_OUTPUT_PATH ''.json'' (''.backup_'' @ decimal now @ ''.json'')"

text \<open>
  The list \<open>backups\<close> of \<open>saveCookies\<close>: the names in the root directory that start with
  \<open>cookies.backup_\<close>, sorted and reversed. \<open>sort\<close> is the order of the strings by
  character code, as \<open>Array.prototype.sort\<close> without a comparator.
\<close>

definition is_backup :: "string \<Rightarrow> bool" where
  "is_backup f = startsWith f ''cookies.backup_''"

definition backup_names :: "dir \<Rightarrow> string list" where
  "backup_names d = rev (sort (filter is_backup (readdirSync d)))"

text \<open>
  The calls \<open>saveCookies\<close> makes, in order, when none of them throws. \<open>now\<close> is the
  reading of \<open>Date.now()\<close> for the backup's name.
\<close>

definition saveCookies_ops :: "nat \<Rightarrow> dir \<Rightarrow> cookie list \<Rightarrow> fs_op list" where
  "saveCookies_ops now d cookies =
     (if existsSync d COOKIES_OUTPUT_PATH
      then let copy = CopyFile COOKIES_OUTPUT_PATH (backupPath now);
               backups = backup_names (apply_op d copy)
           in copy # (if length backups > 5 then map Unlink (drop 5 backups) else [])
      else [])
     @ [WriteFile COOKIES_OUTPUT_PATH (CookieJson cookies)]"

definition saveCookies :: "nat \<Rightarrow> dir \<Rightarrow> cookie list \<Rightarrow> dir" where
  "saveCookies now d cookies = foldl apply_op d (saveCookies_ops now d cookies)"

subsection \<open>The retry and failover loops\<close>

text \<open>
  The environment of a run: what the browser does in attempt \<open>attempt\<close> on the account
  at index \<open>i\<close>, the clock readings of that attempt's conversion, and the clock reading
  of \<open>saveCookies\<close>.
\<close>

record env =
  page :: "nat \<Rightarrow> int \<Rightarrow> page_run"
  clock :: "nat \<Rightarrow> int \<Rightarrow> nat \<Rightarrow> nat"
  save_clock :: nat

text \<open>
  What a run does, in order: a call of \<open>attemptLogin\<close> on account \<open>i\<close> with its attempt
  number, or the log line "rotating to next account" after account \<open>i\<close>.
\<close>

datatype event = Attempt nat int | Rotating nat

text \<open>How a loop ends: an exception passes through it, no cookies, or cookies.\<close>

datatype loop_exit = Thrown | NoCookies | Cookies "cookie list"

text \<open>
  The inner loop \<open>for (attempt = 1; attempt <= maxRetriesPerAccount; attempt++)\<close>, from
  \<open>attempt\<close> on. The pause before a retry has no effect on the state.
\<close>

function retry_loop :: "env \<Rightarrow> nat \<Rightarrow> int \<Rightarrow> int \<Rightarrow> event list \<times> loop_exit" where
  "retry_loop e i attempt maxR =
     (if attempt \<le> maxR
      then (case attemptLogin (clock e i attempt) (page e i attempt) of
              None \<Rightarrow> ([Attempt i attempt], Thrown)
            | Some (logged, cookies) \<Rightarrow>
                (case cookies of
                   Some (c # cs) \<Rightarrow> ([Attempt i attempt], Cookies (c # cs))
                 | _ \<Rightarrow>
                     (case retry_loop e i (attempt + 1) maxR of
                        (evs, r) \<Rightarrow> (Attempt i attempt # evs, r))))
      else ([], NoCookies))"
  by pat_completeness auto
termination
  by (relation "measure (\<lambda>(e, i, attempt, m). nat (m + 1 - attempt))") auto

declare retry_loop.simps [simp del]

text \<open>
  The outer loop \<open>for (i = 0; i < accounts.length; i++)\<close>, from \<open>i\<close> on. The value of
  \<open>rotation.failover\<close> is read in one place, the condition of the log line.
\<close>

function account_loop ::
  "env \<Rightarrow> json list \<Rightarrow> rotation option \<Rightarrow> nat \<Rightarrow> event list \<times> loop_exit" where
  "account_loop e accs rot i =
     (if i < length accs
      then (case retry_loop e i 1 (maxRetriesPerAccount rot) of
              (evs, Thrown) \<Rightarrow> (evs, Thrown)
            | (evs, Cookies cs) \<Rightarrow> (evs, Cookies cs)
            | (evs, NoCookies) \<Rightarrow>
                (case account_loop e accs rot (i + 1) of
                   (rest, r) \<Rightarrow>
                     (evs
                      @ (if int i < int (length accs) - 1 \<and> failover_not_false rot
                         then [Rotating i] else [])
                      @ rest, r)))
      else ([], NoCookies))"
  by pat_completeness auto
termination
  by (relation "measure (\<lambda>(e, accs, rot, i). length accs - i)") auto

declare account_loop.simps [simp del]

subsection \<open>The run\<close>

datatype run_outcome = ConfigInvalid | Succeeded | Exhausted | FatalError

record run_result =
  outcome :: run_outcome
  exit_code :: int
  root :: dir
  events :: "event list"

text \<open>
  \<open>refreshCookies\<close> on the configuration file, the environment and the root directory,
  once the browser is launched. \<open>process.exit(1)\<close> ends the run after a failed load, after
  the loop without cookies, and in the handler of an exception that leaves the function.
\<close>

definition refreshCookies :: "config_file \<Rightarrow> env \<Rightarrow> dir \<Rightarrow> run_result" where
  "refreshCookies source e d =
     (case loadAccountsConfig source of
        None \<Rightarrow> \<lparr> outcome = ConfigInvalid, exit_code = 1, root = d, events = [] \<rparr>
      | Some config \<Rightarrow>
          (case account_loop e (accounts config) (rotation config) 0 of
             (evs, Thrown) \<Rightarrow>
               \<lparr> outcome = FatalError, exit_code = 1, root = d, events = evs \<rparr>
           | (evs, Cookies successfulCookies) \<Rightarrow>
               \<lparr> outcome = Succeeded, exit_code = 0,
                 root = saveCookies (save_clock e) d successfulCookies, events = evs \<rparr>
           | (evs, NoCookies) \<Rightarrow>
               \<lparr> outcome = Exhausted, exit_code = 1, root = d, events = evs \<rparr>))"

subsection \<open>Reading a run\<close>

text \<open>The login attempts of a run, in order: account index and attempt number.\<close>

fun attempts_of :: "event list \<Rightarrow> (nat \<times> int) list" where
  "attempts_of [] = []"
| "attempts_of (Attempt i k # evs) = (i, k) # attempts_of evs"
| "attempts_of (Rotating i # evs) = attempts_of evs"

text \<open>What the call of \<open>attemptLogin\<close> for attempt \<open>a\<close> gives in environment \<open>e\<close>.\<close>

definition returned :: "env \<Rightarrow> nat \<times> int \<Rightarrow> (attempt_log \<times> cookie list option) option" where
  "returned e a = attemptLogin (clock e (fst a) (snd a)) (page e (fst a) (snd a))"

text \<open>
  The three ways an attempt ends for the loop: its cookies pass the test
  \<open>cookies && cookies.length > 0\<close>, an exception escapes, or it returned \<open>null\<close> (or an
  empty array).
\<close>

definition accepted :: "env \<Rightarrow> nat \<times> int \<Rightarrow> bool" where
  "accepted e a = (case returned e a of Some (l, Some (c # cs)) \<Rightarrow> True | _ \<Rightarrow> False)"

definition escaped :: "env \<Rightarrow> nat \<times> int \<Rightarrow> bool" where
  "escaped e a = (returned e a = None)"

definition failed :: "env \<Rightarrow> nat \<times> int \<Rightarrow> bool" where
  "failed e a = (\<not> accepted e a \<and> \<not> escaped e a)"

text \<open>The line attempt \<open>a\<close> logs, when no exception escapes.\<close>

definition logged :: "env \<Rightarrow> nat \<times> int \<Rightarrow> attempt_log option" where
  "logged e a = map_option fst (returned e a)"

text \<open>How the loops end after the attempts \<open>as\<close>: the last attempt decides.\<close>

definition exit_of :: "env \<Rightarrow> (nat \<times> int) list \<Rightarrow> loop_exit" where
  "exit_of e as =
     (if as = [] then NoCookies
      else (case returned e (last as) of
              None \<Rightarrow> Thrown
            | Some (l, Some (c # cs)) \<Rightarrow> Cookies (c # cs)
            | _ \<Rightarrow> NoCookies))"

text \<open>The order of the attempts: by account index, then by attempt number.\<close>

definition before :: "nat \<times> int \<Rightarrow> nat \<times> int \<Rightarrow> bool" where
  "before a b = (fst a < fst b \<or> (fst a = fst b \<and> snd a < snd b))"

text \<open>
  The specification's terminal failures, on the lines the script logs: Detection (the
  CAPTCHA line), CredentialError (account not found, wrong password) and
  VerificationRequired (identity verification, two-step verification). The script has no
  such class: each of these ends \<open>attemptLogin\<close> with \<open>return null\<close>.
\<close>

fun spec_terminal_failure :: "attempt_log \<Rightarrow> bool" where
  "spec_terminal_failure CaptchaDetected = True"
| "spec_terminal_failure AccountNotFound = True"
| "spec_terminal_failure VerificationRequired = True"
| "spec_terminal_failure TwoFactorRequired = True"
| "spec_terminal_failure WrongPassword = True"
| "spec_terminal_failure l = False"

text \<open>
  The specification's atomic replacement of the file \<open>target\<close>, on the calls made: no
  call writes into \<open>target\<close> itself, and a rename moves another file onto it.
\<close>

fun writes_into :: "string \<Rightarrow> fs_op \<Rightarrow> bool" where
  "writes_into target (WriteFile p f) = (p = target)"
| "writes_into target (CopyFile src dst) = (dst = target)"
| "writes_into target op = False"

fun renames_onto :: "string \<Rightarrow> fs_op \<Rightarrow> bool" where
  "renames_onto target (Rename src dst) = (dst = target \<and> src \<noteq> target)"
| "renames_onto target op = False"

fun is_rename :: "fs_op \<Rightarrow> bool" where
  "is_rename (Rename src dst) = True"
| "is_rename op = False"

definition spec_write_temp_then_rename :: "string \<Rightarrow> fs_op list \<Rightarrow> bool" where
  "spec_write_temp_then_rename target ops =
     (\<not> list_ex (writes_into target) ops \<and> list_ex (renames_onto target) ops)"

text \<open>The backup files of a directory, with their contents.\<close>

definition backup_files :: "dir \<Rightarrow> (string \<times> file_content) list" where
  "backup_files d = filter (\<lambda>(f, c). is_backup f) d"

text \<open>The backup files by name, newest name first, each with its content.\<close>

definition backup_list :: "dir \<Rightarrow> (string \<times> file_content) list" where
  "backup_list d = map (\<lambda>f. (f, the (map_of d f))) (backup_names d)"

text \<open>
  Successive persists: each element of \<open>runs\<close> is the clock reading of one call of
  \<open>saveCookies\<close> with the cookies it saves.
\<close>

fun persist_all :: "dir \<Rightarrow> (nat \<times> cookie list) list \<Rightarrow> dir" where
  "persist_all d [] = d"
| "persist_all d ((now, cookies) # runs) = persist_all (saveCookies now d cookies) runs"

text \<open>The first elements of a list up to and including the first one that stops.\<close>

definition upto_first :: "('a \<Rightarrow> bool) \<Rightarrow> 'a list \<Rightarrow> 'a list" where
  "upto_first stop xs =
     takeWhile (\<lambda>x. \<not> stop x) xs @ take 1 (dropWhile (\<lambda>x. \<not> stop x) xs)"

text \<open>All attempts the two loops can make, in their order.\<close>

definition schedule :: "nat \<Rightarrow> nat \<Rightarrow> int \<Rightarrow> (nat \<times> int) list" where
  "schedule i n maxR = concat (map (\<lambda>j. map (Pair j) [1..maxR]) [i..<n])"

subsection \<open>Example data\<close>

definition example_cookie :: "string \<Rightarrow> string \<Rightarrow> raw_cookie" where
  "example_cookie n v =
     \<lparr> name = n, cvalue = v, domain = ''.youtube.com'', path = Some ''/'', expires = - 1,
       httpOnly = Some True, secure = Some True, session = Some True, sameSite = None \<rparr>"

definition example_cookies :: "raw_cookie list" where
  "example_cookies = map (\<lambda>n. example_cookie n ''x'') ESSENTIAL_COOKIES"

definition example_account :: "string \<Rightarrow> json" where
  "example_account email = JObj [(''email'', JStr email), (''password'', JStr ''secret'')]"

text \<open>Every attempt meets a CAPTCHA page; every attempt times out.\<close>

definition captcha_env :: env where
  "captcha_env =
     \<lparr> page = (\<lambda>i k. NoPasswordField ''<div class=g-recaptcha></div>''),
       clock = (\<lambda>i k j. 0), save_clock = 0 \<rparr>"

definition timeout_env :: env where
  "timeout_env = \<lparr> page = (\<lambda>i k. BodyThrows), clock = (\<lambda>i k j. 0), save_clock = 0 \<rparr>"


text \<open>The second attempt on the second account logs in; all others time out.\<close>

definition second_account_env :: env where
  "second_account_env =
     \<lparr> page = (\<lambda>i k. if i = 1 \<and> k = 2 then PasswordSubmitted ''<html></html>'' True example_cookies
                      else BodyThrows),
       clock = (\<lambda>i k j. 1), save_clock = 2 \<rparr>"

definition example_config :: "json list \<Rightarrow> rotation option \<Rightarrow> config_file" where
  "example_config accs rot = Parsed \<lparr> cfg_accounts = Some (JArr accs), cfg_rotation = rot \<rparr>"

definition three_accounts :: "json list" where
  "three_accounts = [example_account ''a@example.com'', example_account ''b@example.com'',
                     example_account ''c@example.com'']"

definition no_failover :: rotation where
  "no_failover = \<lparr> strategy = Some ''sequential'', failover = Some False, maxRetries = Some 2 \<rparr>"

definition mixed_accounts :: "json list" where
  "mixed_accounts =
     [example_account ''a@example.com'',
      JObj [(''email'', JStr ''b@example.com''), (''enabled'', JBool False)],
      JObj [(''email'', JStr ''c@example.com''), (''enabled'', JStr ''false'')],
      JObj [(''email'', JStr ''d@example.com''), (''enabled'', JNull)]]"

definition old_session :: dir where
  "old_session = [(''cookies.json'', OtherText ''[]'')]"

text \<open>
  Seven persists at the clock readings 1 to 7, and six at the readings 5 to 10; the
  persist at reading \<open>t\<close> saves \<open>t\<close> cookies.
\<close>

definition example_runs :: "(nat \<times> cookie list) list" where
  "example_runs =
     map (\<lambda>t. (t, replicate t (convertCookie 0 (example_cookie ''SID'' ''x'')))) [1..<8]"


section \<open>Properties of the loops\<close>

lemma upto_first_Nil [simp]: "upto_first stop [] = []"
  by (simp add: upto_first_def)

lemma upto_first_Cons:
  "upto_first stop (x # xs) = (if stop x then [x] else x # upto_first stop xs)"
  by (simp add: upto_first_def)

lemma upto_first_append:
  "upto_first stop (xs @ ys) =
     (if list_ex stop xs then upto_first stop xs else xs @ upto_first stop ys)"
  by (induction xs) (simp_all add: upto_first_Cons)

lemma upto_first_none: "\<not> list_ex stop xs \<Longrightarrow> upto_first stop xs = xs"
  by (induction xs) (simp_all add: upto_first_Cons)

lemma upto_first_take:
  "upto_first stop xs = take (Suc (length (takeWhile (\<lambda>x. \<not> stop x) xs))) xs"
  by (induction xs) (simp_all add: upto_first_Cons)

lemma attempts_of_append [simp]:
  "attempts_of (xs @ ys) = attempts_of xs @ attempts_of ys"
  by (induction xs rule: attempts_of.induct) simp_all

lemma attempts_of_map_Attempt [simp]:
  "attempts_of (map (Attempt i) ks) = map (Pair i) ks"
  by (induction ks) simp_all

lemma failed_iff:
  "failed e a \<longleftrightarrow> (\<exists>l. returned e a = Some (l, None) \<or> returned e a = Some (l, Some []))"
  by (auto simp: failed_def accepted_def escaped_def split: option.splits list.splits)

lemma retry_loop_events:
  "fst (retry_loop e i a m) = map (Attempt i) (upto_first (\<lambda>k. \<not> failed e (i, k)) [a..m])"
proof (induction e i a m rule: retry_loop.induct)
  case (1 e i attempt maxR)
  show ?case
  proof (cases "attempt \<le> maxR")
    case False
    then show ?thesis by (simp add: retry_loop.simps [of e i attempt maxR])
  next
    case True
    then have up: "[attempt..maxR] = attempt # [attempt + 1..maxR]"
      by (simp add: upto_rec1)
    show ?thesis
      using True 1
      by (auto simp: retry_loop.simps [of e i attempt maxR] up upto_first_Cons failed_iff
          returned_def split: option.splits list.splits prod.splits)
  qed
qed

lemma retry_loop_exit:
  "snd (retry_loop e i a m) = exit_of e (attempts_of (fst (retry_loop e i a m)))"
proof (induction e i a m rule: retry_loop.induct)
  case (1 e i attempt maxR)
  show ?case
  proof (cases "attempt \<le> maxR")
    case False
    then show ?thesis by (simp add: retry_loop.simps [of e i attempt maxR] exit_of_def)
  next
    case True
    show ?thesis
      using True 1
      apply (simp add: retry_loop.simps [of e i attempt maxR] split: option.splits list.splits prod.splits)
      apply (auto simp: exit_of_def returned_def split: option.splits list.splits prod.splits)
      done
  qed
qed


lemma upto_first_map:
  "upto_first stop (map f xs) = map f (upto_first (\<lambda>x. stop (f x)) xs)"
  by (induction xs) (simp_all add: upto_first_Cons)

lemma retry_loop_NoCookies:
  "snd (retry_loop e i a m) = NoCookies \<longleftrightarrow> (\<forall>k \<in> set [a..m]. failed e (i, k))"
proof (induction e i a m rule: retry_loop.induct)
  case (1 e i attempt maxR)
  show ?case
  proof (cases "attempt \<le> maxR")
    case False
    then show ?thesis by (simp add: retry_loop.simps [of e i attempt maxR])
  next
    case True
    then have up: "[attempt..maxR] = attempt # [attempt + 1..maxR]"
      by (simp add: upto_rec1)
    show ?thesis
      using True 1 unfolding up
      by (auto simp: retry_loop.simps [of e i attempt maxR] failed_iff
          returned_def split: option.splits list.splits prod.splits)
  qed
qed

lemma schedule_step:
  "i < n \<Longrightarrow> schedule i n m = map (Pair i) [1..m] @ schedule (Suc i) n m"
  by (simp add: schedule_def upt_conv_Cons)

lemma schedule_empty: "\<not> i < n \<Longrightarrow> schedule i n m = []"
  by (simp add: schedule_def)

lemma exit_of_Nil [simp]: "exit_of e [] = NoCookies"
  by (simp add: exit_of_def)

lemma exit_of_append:
  "exit_of e (xs @ ys) = (if ys = [] then exit_of e xs else exit_of e ys)"
  by (simp add: exit_of_def)

lemma account_loop_attempts:
  "attempts_of (fst (account_loop e accs rot i)) =
     upto_first (\<lambda>a. \<not> failed e a) (schedule i (length accs) (maxRetriesPerAccount rot))"
proof (induction e accs rot i rule: account_loop.induct)
  case (1 e accs rot i)
  show ?case
  proof (cases "i < length accs")
    case False
    then show ?thesis
      by (simp add: account_loop.simps [of e accs rot i] schedule_empty)
  next
    case True
    obtain evs r where R: "retry_loop e i 1 (maxRetriesPerAccount rot) = (evs, r)"
      by (cases "retry_loop e i 1 (maxRetriesPerAccount rot)")
    have evs: "attempts_of evs =
        upto_first (\<lambda>a. \<not> failed e a) (map (Pair i) [1..maxRetriesPerAccount rot])"
      using retry_loop_events [of e i 1 "maxRetriesPerAccount rot"] R
      by (simp add: upto_first_map)
    have no: "r = NoCookies \<longleftrightarrow>
        \<not> list_ex (\<lambda>a. \<not> failed e a) (map (Pair i) [1..maxRetriesPerAccount rot])"
      using retry_loop_NoCookies [of e i 1 "maxRetriesPerAccount rot"] R
      by (simp add: list_ex_iff)
    show ?thesis
    proof (cases r)
      case NoCookies
      obtain rest r' where A: "account_loop e accs rot (i + 1) = (rest, r')"
        by (cases "account_loop e accs rot (i + 1)")
      have "attempts_of (fst (account_loop e accs rot i)) = attempts_of evs @ attempts_of rest"
        using True R A NoCookies by (simp add: account_loop.simps [of e accs rot i])
      moreover have "attempts_of rest =
          upto_first (\<lambda>a. \<not> failed e a)
            (schedule (Suc i) (length accs) (maxRetriesPerAccount rot))"
        using 1 [OF True R [symmetric]] NoCookies A by simp
      ultimately show ?thesis
        using evs no NoCookies
        by (simp add: schedule_step [OF True] upto_first_append upto_first_none)
    next
      case Thrown
      with R True evs no show ?thesis
        by (simp add: account_loop.simps [of e accs rot i] schedule_step upto_first_append)
    next
      case (Cookies cs)
      with R True evs no show ?thesis
        by (simp add: account_loop.simps [of e accs rot i] schedule_step upto_first_append)
    qed
  qed
qed

lemma account_loop_exit:
  "snd (account_loop e accs rot i) = exit_of e (attempts_of (fst (account_loop e accs rot i)))"
proof (induction e accs rot i rule: account_loop.induct)
  case (1 e accs rot i)
  show ?case
  proof (cases "i < length accs")
    case False
    then show ?thesis
      by (simp add: account_loop.simps [of e accs rot i])
  next
    case True
    obtain evs r where R: "retry_loop e i 1 (maxRetriesPerAccount rot) = (evs, r)"
      by (cases "retry_loop e i 1 (maxRetriesPerAccount rot)")
    have ex: "exit_of e (attempts_of evs) = r"
      using retry_loop_exit [of e i 1 "maxRetriesPerAccount rot"] R by simp
    show ?thesis
    proof (cases r)
      case NoCookies
      obtain rest r' where A: "account_loop e accs rot (i + 1) = (rest, r')"
        by (cases "account_loop e accs rot (i + 1)")
      have L: "account_loop e accs rot i =
          (evs @ (if int i < int (length accs) - 1 \<and> failover_not_false rot
                  then [Rotating i] else []) @ rest, r')"
        using True R A NoCookies by (simp add: account_loop.simps [of e accs rot i])
      have "r' = exit_of e (attempts_of rest)"
        using 1 [OF True R [symmetric]] NoCookies A by simp
      then show ?thesis
        using ex NoCookies unfolding L by (simp add: exit_of_append)
    next
      case Thrown
      then have "account_loop e accs rot i = (evs, Thrown)"
        using True R by (simp add: account_loop.simps [of e accs rot i])
      then show ?thesis using ex Thrown by simp
    next
      case (Cookies cs)
      then have "account_loop e accs rot i = (evs, Cookies cs)"
        using True R by (simp add: account_loop.simps [of e accs rot i])
      then show ?thesis using ex Cookies by simp
    qed
  qed
qed


lemma run_attempts:
  "loadAccountsConfig source = Some cfg \<Longrightarrow>
   attempts_of (events (refreshCookies source e d)) =
     upto_first (\<lambda>a. \<not> failed e a)
       (schedule 0 (length (accounts cfg)) (maxRetriesPerAccount (rotation cfg)))"
  using account_loop_attempts [of e "accounts cfg" "rotation cfg" 0]
  by (cases "account_loop e (accounts cfg) (rotation cfg) 0")
     (auto simp: refreshCookies_def split: loop_exit.splits)

lemma run_loaded:
  "loadAccountsConfig source = Some cfg \<Longrightarrow>
   refreshCookies source e d =
     (case exit_of e (attempts_of (events (refreshCookies source e d))) of
        Thrown \<Rightarrow> \<lparr> outcome = FatalError, exit_code = 1, root = d,
                    events = events (refreshCookies source e d) \<rparr>
      | NoCookies \<Rightarrow> \<lparr> outcome = Exhausted, exit_code = 1, root = d,
                    events = events (refreshCookies source e d) \<rparr>
      | Cookies cs \<Rightarrow> \<lparr> outcome = Succeeded, exit_code = 0,
                    root = saveCookies (save_clock e) d cs,
                    events = events (refreshCookies source e d) \<rparr>)"
  using account_loop_exit [of e "accounts cfg" "rotation cfg" 0]
  by (cases "account_loop e (accounts cfg) (rotation cfg) 0")
     (auto simp: refreshCookies_def split: loop_exit.splits)

lemma run_not_loaded:
  "loadAccountsConfig source = None \<Longrightarrow>
   refreshCookies source e d = \<lparr> outcome = ConfigInvalid, exit_code = 1, root = d, events = [] \<rparr>"
  by (simp add: refreshCookies_def)

lemma exit_of_Cookies:
  "(\<exists>cs. exit_of e as = Cookies cs) \<longleftrightarrow> as \<noteq> [] \<and> accepted e (last as)"
  by (auto simp: exit_of_def accepted_def split: option.splits list.splits prod.splits)


lemma set_schedule:
  "set (schedule i n m) = {a. i \<le> fst a \<and> fst a < n \<and> 1 \<le> snd a \<and> snd a \<le> m}"
  by (auto simp: schedule_def)

lemma sorted_wrt_schedule: "sorted_wrt before (schedule i n m)"
proof (induction "n - i" arbitrary: i)
  case 0
  then show ?case by (simp add: schedule_empty)
next
  case (Suc k)
  then have lt: "i < n" by simp
  have "sorted_wrt before (map (Pair i) [1..m])"
    by (simp add: sorted_wrt_map before_def)
  moreover have "sorted_wrt before (schedule (Suc i) n m)"
    using Suc by simp
  ultimately show ?case
    by (auto simp: schedule_step [OF lt] sorted_wrt_append set_schedule before_def)
qed

lemma upto_first_stop_last:
  "p < length (upto_first stop xs) \<Longrightarrow> stop (upto_first stop xs ! p) \<Longrightarrow>
   Suc p = length (upto_first stop xs)"
proof (induction xs arbitrary: p)
  case Nil
  then show ?case by simp
next
  case (Cons x xs)
  then show ?case
    by (cases p) (auto simp: upto_first_Cons split: if_splits)
qed

lemma set_upto_first: "set (upto_first stop xs) \<subseteq> set xs"
  by (simp add: upto_first_take set_take_subset)


lemma terminal_returns_null:
  "attemptLogin clk run = Some (l, r) \<Longrightarrow> spec_terminal_failure l \<Longrightarrow> r = None"
  by (auto simp: attemptLogin_def Let_def split: page_run.splits if_splits)

lemma terminal_failed:
  "logged e a = Some l \<Longrightarrow> spec_terminal_failure l \<Longrightarrow> failed e a"
  by (auto simp: logged_def failed_iff returned_def dest: terminal_returns_null)

lemma upto_first_upto_next:
  "k \<in> set (upto_first stop [a..m]) \<Longrightarrow> \<not> stop k \<Longrightarrow> k < m \<Longrightarrow>
   k + 1 \<in> set (upto_first stop [a..m])"
proof (induction a m rule: upto.induct)
  case (1 a m)
  show ?case
  proof (cases "a \<le> m")
    case False
    with 1 show ?thesis by simp
  next
    case True
    then have up: "[a..m] = a # [a + 1..m]" by (simp add: upto_rec1)
    show ?thesis
    proof (cases "k = a")
      case True
      with 1(4) have "[a + 1..m] = (a + 1) # [a + 1 + 1..m]" by (simp add: upto_rec1)
      then show ?thesis
        using True 1(3) unfolding up by (simp add: upto_first_Cons)
    next
      case False
      with 1(2,3) have "k \<in> set (upto_first stop [a + 1..m])"
        unfolding up by (auto simp: upto_first_Cons split: if_splits)
      from 1(1) [OF True this 1(3,4)] show ?thesis
        using 1(2,3) unfolding up by (auto simp: upto_first_Cons split: if_splits)
    qed
  qed
qed

lemma retry_loop_next:
  assumes "a \<in> set (attempts_of (fst (retry_loop e i 1 m)))" "failed e a" "snd a < m"
  shows "(fst a, snd a + 1) \<in> set (attempts_of (fst (retry_loop e i 1 m)))"
proof -
  have set: "set (attempts_of (fst (retry_loop e i 1 m))) =
      Pair i ` set (upto_first (\<lambda>k. \<not> failed e (i, k)) [1..m])"
    by (simp add: retry_loop_events)
  from assms(1) obtain k where k: "a = (i, k)"
    "k \<in> set (upto_first (\<lambda>k. \<not> failed e (i, k)) [1..m])"
    unfolding set by auto
  from upto_first_upto_next [OF k(2)] assms(2,3) k(1)
  have "k + 1 \<in> set (upto_first (\<lambda>k. \<not> failed e (i, k)) [1..m])" by simp
  then show ?thesis unfolding set k(1) by simp
qed

lemma account_loop_next:
  "a \<in> set (attempts_of (fst (account_loop e accs rot i))) \<Longrightarrow> failed e a \<Longrightarrow>
   snd a < maxRetriesPerAccount rot \<Longrightarrow>
   (fst a, snd a + 1) \<in> set (attempts_of (fst (account_loop e accs rot i)))"
proof (induction e accs rot i rule: account_loop.induct)
  case (1 e accs rot i)
  show ?case
  proof (cases "i < length accs")
    case False
    with 1(2) show ?thesis by (simp add: account_loop.simps [of e accs rot i])
  next
    case True
    obtain evs r where R: "retry_loop e i 1 (maxRetriesPerAccount rot) = (evs, r)"
      by (cases "retry_loop e i 1 (maxRetriesPerAccount rot)")
    have nx: "(fst a, snd a + 1) \<in> set (attempts_of evs)" if "a \<in> set (attempts_of evs)"
      using retry_loop_next [of a e i "maxRetriesPerAccount rot"] that 1(3,4) R by simp
    show ?thesis
    proof (cases r)
      case NoCookies
      obtain rest r' where A: "account_loop e accs rot (i + 1) = (rest, r')"
        by (cases "account_loop e accs rot (i + 1)")
      have L: "attempts_of (fst (account_loop e accs rot i)) = attempts_of evs @ attempts_of rest"
        using True R A NoCookies by (simp add: account_loop.simps [of e accs rot i])
      have "(fst a, snd a + 1) \<in> set (attempts_of rest)" if "a \<in> set (attempts_of rest)"
        using 1(1) [OF True R [symmetric]] NoCookies A that 1(3,4) by simp
      with nx 1(2) show ?thesis unfolding L by auto
    next
      case Thrown
      then have "account_loop e accs rot i = (evs, Thrown)"
        using True R by (simp add: account_loop.simps [of e accs rot i])
      with nx 1(2) show ?thesis by simp
    next
      case (Cookies cs)
      then have "account_loop e accs rot i = (evs, Cookies cs)"
        using True R by (simp add: account_loop.simps [of e accs rot i])
      with nx 1(2) show ?thesis by simp
    qed
  qed
qed

lemma run_events:
  "loadAccountsConfig source = Some cfg \<Longrightarrow>
   events (refreshCookies source e d) = fst (account_loop e (accounts cfg) (rotation cfg) 0)"
  by (cases "account_loop e (accounts cfg) (rotation cfg) 0")
     (auto simp: refreshCookies_def split: loop_exit.splits)

lemma backupPath_eq: "backupPath now = ''cookies.backup_'' @ decimal now @ ''.json''"
  by (simp add: backupPath_def COOKIES_OUTPUT_PATH_def)

lemma backupPath_neq [simp]: "backupPath now \<noteq> COOKIES_OUTPUT_PATH"
  by (simp add: backupPath_eq COOKIES_OUTPUT_PATH_def)

lemma list_ex_map_Unlink [simp]:
  "\<not> list_ex (writes_into target) (map Unlink ps)" "\<not> list_ex is_rename (map Unlink ps)"
  by (simp_all add: list_ex_iff)


section \<open>Properties of the session store\<close>

lemma digit_less: "a < 10 \<Longrightarrow> b < 10 \<Longrightarrow> digit a < digit b \<longleftrightarrow> a < b"
  by (simp add: digit_def less_char_def)

lemma decimal_small: "n < 10 \<Longrightarrow> decimal n = [digit n]"
  by (simp add: decimal.simps)

lemma decimal_large:
  "\<not> n < 10 \<Longrightarrow> decimal n = decimal (n div 10) @ [digit (n mod 10)]"
  by (subst decimal.simps) simp

lemma decimal_not_Nil [simp]: "decimal n \<noteq> []"
  by (cases "n < 10") (simp_all add: decimal_small decimal_large)

lemma length_decimal_1: "length (decimal n) = Suc 0 \<longleftrightarrow> n < 10"
  by (cases "n < 10") (simp_all add: decimal_small decimal_large)

lemma decimal_mono:
  "length (decimal a) = length (decimal b) \<Longrightarrow> a < b \<Longrightarrow> decimal a < decimal b"
proof (induction a arbitrary: b rule: decimal.induct)
  case (1 a)
  show ?case
  proof (cases "a < 10")
    case True
    then have "length (decimal b) = Suc 0"
      using "1.prems"(1) by (simp add: decimal_small)
    then have "b < 10" by (simp add: length_decimal_1)
    with True "1.prems"(2) show ?thesis
      by (simp add: decimal_small digit_less)
  next
    case False
    with "1.prems"(2) have b: "\<not> b < 10" by simp
    have len: "length (decimal (a div 10)) = length (decimal (b div 10))"
      using "1.prems"(1) False b by (simp add: decimal_large)
    have le: "a div 10 \<le> b div 10"
      using "1.prems"(2) by (simp add: div_le_mono)
    show ?thesis
    proof (cases "a div 10 = b div 10")
      case True
      then have "a mod 10 < b mod 10"
        using "1.prems"(2) by (metis div_mult_mod_eq nat_add_left_cancel_less)
      then have "digit (a mod 10) < digit (b mod 10)"
        by (simp add: digit_less)
      then show ?thesis
        using True False b
        by (simp add: decimal_large list_less_def lexord_append_leftI)
    next
      case neq: False
      with le have "a div 10 < b div 10" by simp
      from "1.IH" [OF False len this]
      have "(decimal (a div 10), decimal (b div 10)) \<in> lexord {(u, v). u < v}"
        by (simp add: list_less_def)
      then have "(decimal (a div 10) @ [digit (a mod 10)],
                  decimal (b div 10) @ [digit (b mod 10)]) \<in> lexord {(u, v). u < v}"
        by (rule lexord_sufI) (simp add: len)
      then show ?thesis
        using False b by (simp add: decimal_large list_less_def)
    qed
  qed
qed

lemma backupPath_mono:
  "length (decimal a) = length (decimal b) \<Longrightarrow> a < b \<Longrightarrow> backupPath a < backupPath b"
proof -
  assume "length (decimal a) = length (decimal b)" "a < b"
  then have "(decimal a, decimal b) \<in> lexord {(u, v). u < v}"
    using decimal_mono [of a b] by (simp add: list_less_def)
  then have "(decimal a @ ''.json'', decimal b @ ''.json'') \<in> lexord {(u, v). u < v}"
    by (rule lexord_sufI) (simp add: \<open>length (decimal a) = length (decimal b)\<close>)
  then have "(''cookies.backup_'' @ decimal a @ ''.json'',
              ''cookies.backup_'' @ decimal b @ ''.json'') \<in> lexord {(u, v). u < v}"
    by (rule lexord_append_leftI)
  then show ?thesis
    by (simp only: backupPath_eq list_less_def)
qed

lemma startsWith_append [simp]: "startsWith (p @ s) p"
  by (induction p) simp_all

lemma is_backup_backupPath [simp]: "is_backup (backupPath t)"
  by (simp add: is_backup_def backupPath_eq)

lemma not_is_backup_session [simp]: "\<not> is_backup COOKIES_OUTPUT_PATH"
  by (simp add: is_backup_def COOKIES_OUTPUT_PATH_def)

lemma set_backup_names: "set (backup_names d) = {f \<in> fst ` set d. is_backup f}"
  by (auto simp: backup_names_def readdirSync_def)

lemma backup_names_desc:
  "distinct (map fst d) \<Longrightarrow> sorted_wrt (\<lambda>x y. y < x) (backup_names d)"
  by (simp add: backup_names_def readdirSync_def sorted_wrt_rev strict_sorted_iff)

lemma desc_unique:
  fixes xs ys :: "string list"
  assumes "sorted_wrt (\<lambda>x y. y < x) xs" "sorted_wrt (\<lambda>x y. y < x) ys" "set xs = set ys"
  shows "xs = ys"
proof -
  have "sorted_wrt (<) (rev xs)" "sorted_wrt (<) (rev ys)"
    using assms(1,2) by (simp_all add: sorted_wrt_rev)
  then have "rev xs = rev ys"
    using assms(3) by (intro sorted_distinct_set_unique) (simp_all add: strict_sorted_iff)
  then show ?thesis by simp
qed

lemma unlink_all:
  "distinct (map fst d) \<Longrightarrow>
   distinct (map fst (foldl apply_op d (map Unlink D)))
   \<and> fst ` set (foldl apply_op d (map Unlink D)) = fst ` set d - set D
   \<and> (\<forall>f. f \<notin> set D \<longrightarrow> map_of (foldl apply_op d (map Unlink D)) f = map_of d f)"
proof (induction D arbitrary: d)
  case Nil
  then show ?case by simp
next
  case (Cons p D)
  have keys: "fst ` set (AList.delete p d) = fst ` set d - {p}"
    by (auto simp: AList.delete_eq image_iff)
  from Cons.IH [of "AList.delete p d"] Cons.prems show ?case
    by (auto simp: distinct_delete keys)
qed

lemma set_take_distinct:
  "distinct xs \<Longrightarrow> set (take n xs) = set xs - set (drop n xs)"
proof -
  assume "distinct xs"
  then have "distinct (take n xs @ drop n xs)" by simp
  then have "set (take n xs) \<inter> set (drop n xs) = {}"
    unfolding distinct_append by blast
  moreover have "set xs = set (take n xs) \<union> set (drop n xs)"
    by (metis append_take_drop_id set_append)
  ultimately show ?thesis by blast
qed

lemma desc_distinct: "sorted_wrt (\<lambda>x y. y < x) (xs :: string list) \<Longrightarrow> distinct xs"
  by (induction xs) auto

lemma saveCookies_step:
  assumes dist: "distinct (map fst d)"
    and sess: "map_of d COOKIES_OUTPUT_PATH = Some s"
    and new: "\<forall>f \<in> set (backup_names d). f < backupPath t"
  shows "distinct (map fst (saveCookies t d c))"
    and "map_of (saveCookies t d c) COOKIES_OUTPUT_PATH = Some (CookieJson c)"
    and "backup_names (saveCookies t d c) = take 5 (backupPath t # backup_names d)"
    and "backup_list (saveCookies t d c) = take 5 ((backupPath t, s) # backup_list d)"
proof -
  let ?n = "backupPath t"
  let ?d1 = "AList.update ?n s d"
  let ?L = "?n # backup_names d"
  let ?D = "drop 5 ?L"
  let ?d2 = "foldl apply_op ?d1 (map Unlink ?D)"
  let ?d3 = "AList.update COOKIES_OUTPUT_PATH (CookieJson c) ?d2"
  have ex: "existsSync d COOKIES_OUTPUT_PATH"
    using sess by (auto simp: existsSync_def dest!: map_of_SomeD intro: rev_image_eqI)
  have nin: "?n \<notin> fst ` set d"
  proof
    assume "?n \<in> fst ` set d"
    then have "?n \<in> set (backup_names d)" by (simp add: set_backup_names)
    with new show False by auto
  qed
  have d1: "distinct (map fst ?d1)" using dist by (rule distinct_update)
  have Ldesc: "sorted_wrt (\<lambda>x y. y < x) ?L"
    using backup_names_desc [OF dist] new by simp
  have bn1: "backup_names ?d1 = ?L"
    using backup_names_desc [OF d1] Ldesc
    by (rule desc_unique) (auto simp: set_backup_names dom_update)
  have ops: "saveCookies_ops t d c =
      CopyFile COOKIES_OUTPUT_PATH ?n # map Unlink ?D
      @ [WriteFile COOKIES_OUTPUT_PATH (CookieJson c)]"
    using ex sess bn1 by (simp add: saveCookies_ops_def Let_def)
  have d3: "saveCookies t d c = ?d3"
    using sess by (simp add: saveCookies_def ops)
  note U = unlink_all [OF d1, of ?D]
  have d2: "distinct (map fst ?d2)" using U by blast
  have k2: "fst ` set ?d2 = fst ` set ?d1 - set ?D" using U by blast
  have m2: "map_of ?d2 f = map_of ?d1 f" if "f \<notin> set ?D" for f using U that by blast
  show a: "distinct (map fst (saveCookies t d c))"
    unfolding d3 using d2 by (rule distinct_update)
  show "map_of (saveCookies t d c) COOKIES_OUTPUT_PATH = Some (CookieJson c)"
    unfolding d3 by (simp add: update_conv')
  have sessin: "COOKIES_OUTPUT_PATH \<in> fst ` set ?d2"
  proof -
    have "COOKIES_OUTPUT_PATH \<in> fst ` set ?d1"
      using ex by (simp add: dom_update existsSync_def)
    moreover have "COOKIES_OUTPUT_PATH \<notin> set ?D"
    proof
      assume "COOKIES_OUTPUT_PATH \<in> set ?D"
      then have "COOKIES_OUTPUT_PATH \<in> set ?L" by (rule in_set_dropD)
      then have "is_backup COOKIES_OUTPUT_PATH"
        using backupPath_neq [of t] by (auto simp: set_backup_names)
      then show False by simp
    qed
    ultimately show ?thesis unfolding k2 by simp
  qed
  have k3: "fst ` set ?d3 = fst ` set ?d1 - set ?D"
  proof -
    have "fst ` set ?d3 = insert COOKIES_OUTPUT_PATH (fst ` set ?d2)"
      unfolding dom_update by blast
    also have "\<dots> = fst ` set ?d2" using sessin by blast
    finally show ?thesis unfolding k2 .
  qed
  have set3: "set (backup_names ?d3) = set (take 5 ?L)"
  proof -
    have "set (backup_names ?d3) = set (backup_names ?d1) - set ?D"
      unfolding set_backup_names k3 by auto
    also have "\<dots> = set (take 5 ?L)"
      unfolding bn1 using set_take_distinct [OF desc_distinct [OF Ldesc], of 5] by simp
    finally show ?thesis .
  qed
  have bn3: "backup_names ?d3 = take 5 ?L"
    using backup_names_desc [OF a [unfolded d3]] sorted_wrt_take [OF Ldesc, of 5] set3
    by (rule desc_unique)
  show "backup_names (saveCookies t d c) = take 5 (backupPath t # backup_names d)"
    unfolding d3 by (rule bn3)
  have cont: "map_of ?d3 f = (if f = ?n then Some s else map_of d f)"
    if "f \<in> set (take 5 ?L)" for f
  proof -
    have "f \<in> set ?L" using that by (rule in_set_takeD)
    then have b: "is_backup f" by (auto simp: set_backup_names)
    then have ne: "f \<noteq> COOKIES_OUTPUT_PATH" by auto
    have "f \<notin> set ?D"
      using that set_take_distinct [OF desc_distinct [OF Ldesc], of 5] by auto
    then have "map_of ?d2 f = map_of ?d1 f" by (rule m2)
    then show ?thesis using ne by (simp add: update_conv')
  qed
  have "backup_list ?d3 = map (\<lambda>f. (f, the (map_of ?d3 f))) (take 5 ?L)"
    by (simp only: backup_list_def bn3)
  also have "\<dots> = map (\<lambda>f. (f, the (if f = ?n then Some s else map_of d f))) (take 5 ?L)"
    using cont by (intro map_cong) auto
  also have "\<dots> = take 5 (map (\<lambda>f. (f, the (if f = ?n then Some s else map_of d f))) ?L)"
    by (simp only: take_map)
  also have "map (\<lambda>f. (f, the (if f = ?n then Some s else map_of d f))) ?L
      = (?n, s) # backup_list d"
    using new by (auto simp: backup_list_def)
  finally show "backup_list (saveCookies t d c) = take 5 ((backupPath t, s) # backup_list d)"
    unfolding d3 .
qed

lemma take_append_take: "take n (xs @ take n ys) = take n (xs @ ys)"
  by (simp add: min_def)

lemma persist_all_backups:
  assumes "distinct (map fst d)"
    and "map_of d COOKIES_OUTPUT_PATH = Some s"
    and "sorted_wrt (<) (map (\<lambda>r. backupPath (fst r)) runs)"
    and "\<forall>f \<in> set (backup_names d). \<forall>r \<in> set runs. f < backupPath (fst r)"
  shows "distinct (map fst (persist_all d runs))
    \<and> map_of (persist_all d runs) COOKIES_OUTPUT_PATH
        = Some (last (s # map (\<lambda>r. CookieJson (snd r)) runs))
    \<and> (runs \<noteq> [] \<longrightarrow>
        backup_names (persist_all d runs)
          = take 5 (rev (map (\<lambda>r. backupPath (fst r)) runs) @ backup_names d)
      \<and> backup_list (persist_all d runs)
          = take 5 (rev (zip (map (\<lambda>r. backupPath (fst r)) runs) (s # map (\<lambda>r. CookieJson (snd r)) runs))
                    @ backup_list d))"
  using assms
proof (induction runs arbitrary: d s)
  case Nil
  then show ?case by simp
next
  case (Cons r rest)
  obtain t c where r: "r = (t, c)" by (cases r)
  let ?d' = "saveCookies t d c"
  have new: "\<forall>f \<in> set (backup_names d). f < backupPath t"
    using Cons.prems(4) r by simp
  note S = saveCookies_step [OF Cons.prems(1,2) new, of c]
  have srt: "sorted_wrt (<) (map (\<lambda>r. backupPath (fst r)) rest)"
    and lt: "\<forall>x \<in> set rest. backupPath t < backupPath (fst x)"
    using Cons.prems(3) r by simp_all
  have old: "\<forall>f \<in> set (backup_names ?d'). \<forall>x \<in> set rest. f < backupPath (fst x)"
  proof (intro ballI)
    fix f x assume f: "f \<in> set (backup_names ?d')" and x: "x \<in> set rest"
    from f have "f \<in> set (backupPath t # backup_names d)"
      unfolding S(3) by (rule in_set_takeD)
    then show "f < backupPath (fst x)"
      using lt x Cons.prems(4) by auto
  qed
  from Cons.IH [OF S(1) S(2) srt old]
  have IH: "distinct (map fst (persist_all ?d' rest))"
    "map_of (persist_all ?d' rest) COOKIES_OUTPUT_PATH
        = Some (last (CookieJson c # map (\<lambda>r. CookieJson (snd r)) rest))"
    "rest \<noteq> [] \<Longrightarrow> backup_names (persist_all ?d' rest)
        = take 5 (rev (map (\<lambda>r. backupPath (fst r)) rest) @ backup_names ?d')"
    "rest \<noteq> [] \<Longrightarrow> backup_list (persist_all ?d' rest)
        = take 5 (rev (zip (map (\<lambda>r. backupPath (fst r)) rest) (CookieJson c # map (\<lambda>r. CookieJson (snd r)) rest))
                  @ backup_list ?d')"
    by blast+
  have 1: "backup_names (persist_all d (r # rest))
      = take 5 (rev (map (\<lambda>r. backupPath (fst r)) (r # rest)) @ backup_names d)"
  proof (cases "rest = []")
    case True
    then show ?thesis using S(3) by (simp add: r)
  next
    case False
    show ?thesis
      unfolding r persist_all.simps IH(3) [OF False] S(3) take_append_take by simp
  qed
  have 2: "backup_list (persist_all d (r # rest))
      = take 5 (rev (zip (map (\<lambda>r. backupPath (fst r)) (r # rest)) (s # map (\<lambda>r. CookieJson (snd r)) (r # rest)))
                @ backup_list d)"
  proof (cases "rest = []")
    case True
    then show ?thesis using S(4) by (simp add: r)
  next
    case False
    show ?thesis
      unfolding r persist_all.simps IH(4) [OF False] S(4) take_append_take by simp
  qed
  show ?case
    using IH(1,2) 1 2 by (simp add: r)
qed

lemma backup_files_list:
  assumes "distinct (map fst d)"
  shows "set (backup_files d) = set (backup_list d)"
    and "length (backup_files d) = length (backup_list d)"
proof -
  have "(f, c) \<in> set (backup_list d) \<longleftrightarrow> (f, c) \<in> set d \<and> is_backup f" for f c
    using assms by (force simp: backup_list_def set_backup_names image_iff)
  then show "set (backup_files d) = set (backup_list d)"
    by (auto simp: backup_files_def)
  have "length (backup_list d) = length (filter is_backup (map fst d))"
    by (simp add: backup_list_def backup_names_def readdirSync_def)
  also have "\<dots> = length (filter (\<lambda>(f, c). is_backup f) d)"
    by (simp add: filter_map comp_def case_prod_unfold)
  finally show "length (backup_files d) = length (backup_list d)"
    by (simp add: backup_files_def)
qed

section \<open>The claims\<close>

lemma example_cookie_simps [simp]:
  "name (example_cookie n v) = n" "cvalue (example_cookie n v) = v"
  by (simp_all add: example_cookie_def)

text \<open>
  C5. \<open>validateCookies\<close> returns true exactly when each of the six required names is the
  name of some cookie and no cookie with a required name has an empty value. So it
  returns false when a required name is absent or present with an empty value, and true
  when all are present with values; cookies with other names never change the result.
\<close>

theorem validateCookies_required_names:
  "(validateCookies cookies \<longleftrightarrow>
      (\<forall>n \<in> set ESSENTIAL_COOKIES. \<exists>c \<in> set cookies. name c = n)
    \<and> (\<forall>c \<in> set cookies. name c \<in> set ESSENTIAL_COOKIES \<longrightarrow> cvalue c \<noteq> []))
   \<and> (validateCookies cookies \<and> (\<forall>x \<in> set extras. name x \<notin> set ESSENTIAL_COOKIES)
        \<longrightarrow> validateCookies (cookies @ extras))
   \<and> length ESSENTIAL_COOKIES = 6 \<and> distinct ESSENTIAL_COOKIES"
proof -
  have iff: "validateCookies cs \<longleftrightarrow>
      (\<forall>n \<in> set ESSENTIAL_COOKIES. \<exists>c \<in> set cs. name c = n)
    \<and> (\<forall>c \<in> set cs. name c \<in> set ESSENTIAL_COOKIES \<longrightarrow> cvalue c \<noteq> [])" for cs
    unfolding validateCookies_def Let_def
    by (simp add: filter_empty_conv image_iff) (metis (full_types))
  have "validateCookies (cookies @ extras)"
    if "validateCookies cookies" "\<forall>x \<in> set extras. name x \<notin> set ESSENTIAL_COOKIES"
    using that unfolding iff by auto
  moreover have "length ESSENTIAL_COOKIES = 6" "distinct ESSENTIAL_COOKIES"
    by (simp_all add: ESSENTIAL_COOKIES_def)
  ultimately show ?thesis using iff [of cookies] by blast
qed

theorem validateCookies_required_names_witness:
  "validateCookies (example_cookies @ [example_cookie ''PREF'' []])
   \<and> \<not> validateCookies (tl example_cookies)
   \<and> \<not> validateCookies (example_cookie ''SID'' [] # example_cookies)"
proof -
  have a: "\<forall>x \<in> set [example_cookie ''PREF'' []]. name x \<notin> set ESSENTIAL_COOKIES"
    by (simp add: ESSENTIAL_COOKIES_def)
  have b: "validateCookies example_cookies" by code_simp
  have c: "\<not> (\<forall>n \<in> set ESSENTIAL_COOKIES. \<exists>c \<in> set (tl example_cookies). name c = n)"
    by (simp add: ESSENTIAL_COOKIES_def example_cookies_def)
  have d: "\<not> (\<forall>c \<in> set (example_cookie ''SID'' [] # example_cookies).
              name c \<in> set ESSENTIAL_COOKIES \<longrightarrow> cvalue c \<noteq> [])"
    by (simp add: ESSENTIAL_COOKIES_def)
  show ?thesis
    using validateCookies_required_names [of example_cookies "[example_cookie ''PREF'' []]"]
      validateCookies_required_names [of "tl example_cookies" "[]"]
      validateCookies_required_names [of "example_cookie ''SID'' [] # example_cookies" "[]"]
      a b c d
    by blast
qed



text \<open>
  C7. The attempts of a run are in strictly increasing order of account index, and of
  attempt number within an account; the indices are positions in the loaded pool. An
  attempt whose cookies are accepted is the last attempt of the run, and the run
  succeeds exactly when its last attempt is accepted.
\<close>

theorem attempts_in_order_halt_on_success:
  "sorted_wrt before (attempts_of (events (refreshCookies source e d)))
   \<and> (\<forall>p < length (attempts_of (events (refreshCookies source e d))).
         accepted e (attempts_of (events (refreshCookies source e d)) ! p) \<longrightarrow>
         Suc p = length (attempts_of (events (refreshCookies source e d))))
   \<and> (outcome (refreshCookies source e d) = Succeeded \<longleftrightarrow>
         attempts_of (events (refreshCookies source e d)) \<noteq> []
         \<and> accepted e (last (attempts_of (events (refreshCookies source e d)))))
   \<and> (\<forall>a \<in> set (attempts_of (events (refreshCookies source e d))).
         \<exists>cfg. loadAccountsConfig source = Some cfg \<and> fst a < length (accounts cfg)
               \<and> 1 \<le> snd a \<and> snd a \<le> maxRetriesPerAccount (rotation cfg))"
proof (cases "loadAccountsConfig source")
  case None
  then show ?thesis by (simp add: run_not_loaded)
next
  case (Some cfg)
  let ?as = "attempts_of (events (refreshCookies source e d))"
  let ?sched = "schedule 0 (length (accounts cfg)) (maxRetriesPerAccount (rotation cfg))"
  have as: "?as = upto_first (\<lambda>a. \<not> failed e a) ?sched"
    by (rule run_attempts [OF Some])
  have 1: "sorted_wrt before ?as"
    unfolding as upto_first_take by (rule sorted_wrt_take) (rule sorted_wrt_schedule)
  have 2: "Suc p = length ?as" if "p < length ?as" "accepted e (?as ! p)" for p
    using that upto_first_stop_last [of p "\<lambda>a. \<not> failed e a" ?sched]
    unfolding as by (simp add: failed_def)
  have 3: "outcome (refreshCookies source e d) = Succeeded \<longleftrightarrow>
      ?as \<noteq> [] \<and> accepted e (last ?as)"
    using exit_of_Cookies [of e ?as]
    by (subst run_loaded [OF Some]) (auto split: loop_exit.splits)
  have 4: "\<exists>cfg. loadAccountsConfig source = Some cfg \<and> fst a < length (accounts cfg)
               \<and> 1 \<le> snd a \<and> snd a \<le> maxRetriesPerAccount (rotation cfg)"
    if "a \<in> set ?as" for a
    using that set_upto_first [of "\<lambda>a. \<not> failed e a" ?sched] Some
    unfolding as by (auto simp: set_schedule)
  show ?thesis using 1 2 3 4 by blast
qed

theorem attempts_in_order_halt_on_success_witness:
  "attempts_of (events (refreshCookies (example_config three_accounts None)
       second_account_env old_session)) = [(0, 1), (0, 2), (0, 3), (1, 1), (1, 2)]
   \<and> accepted second_account_env (1, 2)
   \<and> sorted_wrt before [(0, 1), (0, 2), (0, 3), (1, 1), (1 :: nat, 2 :: int)]
   \<and> outcome (refreshCookies (example_config three_accounts None)
       second_account_env old_session) = Succeeded"
proof -
  let ?R = "refreshCookies (example_config three_accounts None) second_account_env old_session"
  note T = attempts_in_order_halt_on_success
      [of "example_config three_accounts None" second_account_env old_session]
  have ev: "events ?R
      = [Attempt 0 1, Attempt 0 2, Attempt 0 3, Rotating 0, Attempt 1 1, Attempt 1 2]"
    by code_simp
  have as: "attempts_of (events ?R) = [(0, 1), (0, 2), (0, 3), (1, 1), (1, 2)]"
    unfolding ev by simp
  have acc: "accepted second_account_env (1, 2)"
    by code_simp
  have srt: "sorted_wrt before [(0, 1), (0, 2), (0, 3), (1, 1), (1 :: nat, 2 :: int)]"
    using T [THEN conjunct1] unfolding as .
  have "outcome ?R = Succeeded"
    using T [THEN conjunct2, THEN conjunct2, THEN conjunct1] acc unfolding as by simp
  with as acc srt show ?thesis by blast
qed

text \<open>
  C1, as stated: after an attempt on an account ends in a terminal failure, the run makes
  no further attempt on that account. It fails: with every attempt meeting a CAPTCHA
  page (Detection), each account is attempted three times.
\<close>

theorem terminal_failure_retried_counterexample:
  "logged captcha_env (0, 1) = Some CaptchaDetected
   \<and> spec_terminal_failure CaptchaDetected
   \<and> attempts_of (events (refreshCookies (example_config three_accounts None) captcha_env
        old_session)) =
       [(0, 1), (0, 2), (0, 3), (1, 1), (1, 2), (1, 3), (2, 1), (2, 2), (2, 3)]"
  by code_simp

text \<open>
  C1, amended. An attempt that ends in a terminal failure (Detection, CredentialError,
  VerificationRequired) returns \<open>null\<close> like every other failed attempt, and the run
  treats it so: when its attempt number is below \<open>maxRetriesPerAccount\<close>, the run makes the
  next attempt on the same account.
\<close>

theorem terminal_failure_is_retried:
  "loadAccountsConfig source = Some cfg \<Longrightarrow>
   a \<in> set (attempts_of (events (refreshCookies source e d))) \<Longrightarrow>
   logged e a = Some l \<Longrightarrow> spec_terminal_failure l \<Longrightarrow>
   snd a < maxRetriesPerAccount (rotation cfg) \<Longrightarrow>
   (fst a, snd a + 1) \<in> set (attempts_of (events (refreshCookies source e d)))"
  using account_loop_next [of a e "accounts cfg" "rotation cfg" 0] terminal_failed [of e a l]
  by (simp add: run_events)

theorem terminal_failure_is_retried_witness:
  "loadAccountsConfig (example_config three_accounts None)
     = Some \<lparr> accounts = three_accounts, rotation = None \<rparr>
   \<and> logged captcha_env (0, 1) = Some CaptchaDetected
   \<and> (0, 2) \<in> set (attempts_of (events (refreshCookies (example_config three_accounts None)
        captcha_env old_session)))"
proof -
  have ld: "loadAccountsConfig (example_config three_accounts None)
     = Some \<lparr> accounts = three_accounts, rotation = None \<rparr>"
    by code_simp
  have lg: "logged captcha_env (0, 1) = Some CaptchaDetected"
    by code_simp
  have a1: "(0, 1) \<in> set (attempts_of (events (refreshCookies
      (example_config three_accounts None) captcha_env old_session)))"
    by code_simp
  have mx: "snd (0 :: nat, 1 :: int) < maxRetriesPerAccount (rotation \<lparr> accounts = three_accounts, rotation = None \<rparr>)"
    by (simp add: maxRetriesPerAccount_def)
  from terminal_failure_is_retried [OF ld a1 lg _ mx] ld lg show ?thesis by simp
qed

text \<open>
  C2. With \<open>rotation.failover\<close> set to false, two retries per account and every attempt
  timing out, the run attempts all three accounts: the flag only suppresses the log line
  about rotating.
\<close>

theorem failover_false_still_rotates:
  "\<not> failover_not_false (Some no_failover)
   \<and> events (refreshCookies (example_config three_accounts (Some no_failover)) timeout_env
        old_session)
      = [Attempt 0 1, Attempt 0 2, Attempt 1 1, Attempt 1 2, Attempt 2 1, Attempt 2 2]"
  by code_simp

text \<open>
  C3, as stated: the session file is replaced by writing a temporary file and renaming
  it. It fails: \<open>saveCookies\<close> writes into the session file itself and renames nothing.
\<close>

theorem saveCookies_not_atomic_counterexample:
  "\<not> spec_write_temp_then_rename COOKIES_OUTPUT_PATH (saveCookies_ops 1 old_session [])
   \<and> list_ex (writes_into COOKIES_OUTPUT_PATH) (saveCookies_ops 1 old_session [])"
  by code_simp

text \<open>
  C3, amended. The last call of \<open>saveCookies\<close> writes the cookie array into the session
  file itself; no earlier call writes into that file, no call is a rename, the copy to
  the backup comes first when the session file exists, and afterwards the session file
  holds the array.
\<close>

theorem saveCookies_writes_in_place:
  "last (saveCookies_ops now d cookies) = WriteFile COOKIES_OUTPUT_PATH (CookieJson cookies)
   \<and> \<not> list_ex (writes_into COOKIES_OUTPUT_PATH) (butlast (saveCookies_ops now d cookies))
   \<and> \<not> list_ex is_rename (saveCookies_ops now d cookies)
   \<and> (existsSync d COOKIES_OUTPUT_PATH \<longrightarrow>
        hd (saveCookies_ops now d cookies) = CopyFile COOKIES_OUTPUT_PATH (backupPath now))
   \<and> map_of (saveCookies now d cookies) COOKIES_OUTPUT_PATH = Some (CookieJson cookies)"
proof -
  obtain pre where ops: "saveCookies_ops now d cookies =
      pre @ [WriteFile COOKIES_OUTPUT_PATH (CookieJson cookies)]"
    and pre: "\<not> list_ex (writes_into COOKIES_OUTPUT_PATH) pre" "\<not> list_ex is_rename pre"
      "existsSync d COOKIES_OUTPUT_PATH \<longrightarrow>
         hd pre = CopyFile COOKIES_OUTPUT_PATH (backupPath now) \<and> pre \<noteq> []"
    by (auto simp: saveCookies_ops_def Let_def)
  have "map_of (saveCookies now d cookies) COOKIES_OUTPUT_PATH = Some (CookieJson cookies)"
    by (simp add: saveCookies_def ops update_conv')
  with pre show ?thesis unfolding ops by (auto simp: hd_append)
qed

theorem saveCookies_writes_in_place_witness:
  "existsSync old_session COOKIES_OUTPUT_PATH
   \<and> saveCookies_ops 1 old_session []
       = [CopyFile ''cookies.json'' ''cookies.backup_1.json'',
          WriteFile ''cookies.json'' (CookieJson [])]
   \<and> saveCookies 1 old_session []
       = [(''cookies.json'', CookieJson []), (''cookies.backup_1.json'', OtherText ''[]'')]"
proof -
  have ops: "saveCookies_ops 1 old_session []
       = [CopyFile ''cookies.json'' ''cookies.backup_1.json'',
          WriteFile ''cookies.json'' (CookieJson [])]"
    by code_simp
  have ex: "existsSync old_session COOKIES_OUTPUT_PATH"
    by code_simp
  have "saveCookies 1 old_session []
       = [(''cookies.json'', CookieJson []), (''cookies.backup_1.json'', OtherText ''[]'')]"
    by code_simp
  with saveCookies_writes_in_place [of 1 old_session "[]"] ops ex show ?thesis by simp
qed




text \<open>
  C9, as stated: a configuration without the rotation block is a fatal startup error. It
  fails: such a configuration loads, and the run makes its attempts with three retries
  per account.
\<close>

theorem missing_rotation_counterexample:
  "loadAccountsConfig (example_config three_accounts None)
     = Some \<lparr> accounts = three_accounts, rotation = None \<rparr>
   \<and> events (refreshCookies (example_config three_accounts None) timeout_env old_session)
     = [Attempt 0 1, Attempt 0 2, Attempt 0 3, Rotating 0, Attempt 1 1, Attempt 1 2,
        Attempt 1 3, Rotating 1, Attempt 2 1, Attempt 2 2, Attempt 2 3]"
  by code_simp

text \<open>
  C9, amended. \<open>loadAccountsConfig\<close> fails exactly when the file is missing, unreadable
  or unparsable, or is the text \<open>null\<close>, or \<open>accounts\<close> is not an array, or the array has a
  null element, or every element has \<open>enabled\<close> equal to \<open>false\<close> (the empty array
  included). The rotation block has no part in it: without it the retries per account
  are 3 and the flag \<open>failover\<close> counts as set. When the load fails the run ends at once
  with exit code 1, no attempt and no write; no other run ends as \<open>ConfigInvalid\<close>.
\<close>

theorem load_fails_exactly:
  "(loadAccountsConfig source = None \<longleftrightarrow>
      (case source of
         Parsed c \<Rightarrow>
           (case cfg_accounts c of
              Some (JArr xs) \<Rightarrow>
                JNull \<in> set xs \<or> (\<forall>acc \<in> set xs. enabled_of acc = Some (JBool False))
            | _ \<Rightarrow> True)
       | _ \<Rightarrow> True))
   \<and> (loadAccountsConfig (Parsed (c \<lparr> cfg_rotation := r \<rparr>)) = None \<longleftrightarrow>
        loadAccountsConfig (Parsed c) = None)
   \<and> (loadAccountsConfig source = None \<longrightarrow>
        refreshCookies source e d
          = \<lparr> outcome = ConfigInvalid, exit_code = 1, root = d, events = [] \<rparr>)
   \<and> (outcome (refreshCookies source e d) = ConfigInvalid \<longrightarrow> loadAccountsConfig source = None)
   \<and> maxRetriesPerAccount None = 3 \<and> failover_not_false None"
proof -
  have 1: "loadAccountsConfig source = None \<longleftrightarrow>
      (case source of
         Parsed c \<Rightarrow>
           (case cfg_accounts c of
              Some (JArr xs) \<Rightarrow>
                JNull \<in> set xs \<or> (\<forall>acc \<in> set xs. enabled_of acc = Some (JBool False))
            | _ \<Rightarrow> True)
       | _ \<Rightarrow> True)"
    by (auto simp: loadAccountsConfig_def Let_def filter_empty_conv
        split: config_file.splits option.splits json.splits)
  have 2: "loadAccountsConfig (Parsed (c \<lparr> cfg_rotation := r \<rparr>)) = None \<longleftrightarrow>
        loadAccountsConfig (Parsed c) = None"
    by (auto simp: loadAccountsConfig_def Let_def split: option.splits json.splits)
  have 3: "outcome (refreshCookies source e d) = ConfigInvalid \<longrightarrow> loadAccountsConfig source = None"
    by (cases "loadAccountsConfig source")
       (auto simp: refreshCookies_def split: prod.splits loop_exit.splits)
  have 4: "maxRetriesPerAccount None = 3" "failover_not_false None"
    by (simp_all add: maxRetriesPerAccount_def failover_not_false_def)
  show ?thesis using 1 2 3 4 run_not_loaded [of source e d] by blast
qed

theorem load_fails_exactly_witness:
  "loadAccountsConfig Missing = None
   \<and> loadAccountsConfig (example_config [] None) = None
   \<and> loadAccountsConfig (example_config [mixed_accounts ! 1] None) = None
   \<and> loadAccountsConfig (example_config three_accounts None) \<noteq> None
   \<and> refreshCookies Missing timeout_env old_session
       = \<lparr> outcome = ConfigInvalid, exit_code = 1, root = old_session, events = [] \<rparr>"
  using load_fails_exactly [where source = Missing and e = timeout_env and d = old_session
      and r = None and c = "\<lparr> cfg_accounts = None, cfg_rotation = None \<rparr>"]
    load_fails_exactly [where source = "example_config [] None" and e = timeout_env and d = old_session
      and r = None and c = "\<lparr> cfg_accounts = None, cfg_rotation = None \<rparr>"]
    load_fails_exactly [where source = "example_config [mixed_accounts ! 1] None" and e = timeout_env and d = old_session
      and r = None and c = "\<lparr> cfg_accounts = None, cfg_rotation = None \<rparr>"]
    load_fails_exactly [where source = "example_config three_accounts None" and e = timeout_env and d = old_session
      and r = None and c = "\<lparr> cfg_accounts = None, cfg_rotation = None \<rparr>"]
  by (simp add: example_config_def mixed_accounts_def three_accounts_def example_account_def)

text \<open>
  C10. Whenever the load succeeds, \<open>accounts\<close> was an array and the loaded pool is that
  array without the elements whose \<open>enabled\<close> is the boolean \<open>false\<close>, in the array's
  order. So an element whose \<open>enabled\<close> is absent, or is any other value, is in the
  pool: the load succeeds with it when the array has no null element.
\<close>

theorem enabled_not_false_is_in_pool:
  "(loadAccountsConfig source = Some cfg \<longrightarrow>
      (\<exists>c xs. source = Parsed c \<and> cfg_accounts c = Some (JArr xs)
         \<and> accounts cfg = filter (\<lambda>a. enabled_of a \<noteq> Some (JBool False)) xs))
   \<and> (cfg_accounts c = Some (JArr xs) \<and> JNull \<notin> set xs \<and> acc \<in> set xs
        \<and> enabled_of acc \<noteq> Some (JBool False) \<longrightarrow>
      (\<exists>cfg. loadAccountsConfig (Parsed c) = Some cfg \<and> acc \<in> set (accounts cfg)))"
proof -
  have 1: "\<exists>c xs. source = Parsed c \<and> cfg_accounts c = Some (JArr xs)
         \<and> accounts cfg = filter (\<lambda>a. enabled_of a \<noteq> Some (JBool False)) xs"
    if "loadAccountsConfig source = Some cfg"
    using that
    by (auto simp: loadAccountsConfig_def Let_def
        split: config_file.splits option.splits json.splits if_splits)
  have 2: "\<exists>cfg. loadAccountsConfig (Parsed c) = Some cfg \<and> acc \<in> set (accounts cfg)"
    if "cfg_accounts c = Some (JArr xs)" "JNull \<notin> set xs" "acc \<in> set xs"
      "enabled_of acc \<noteq> Some (JBool False)"
    using that by (auto simp: loadAccountsConfig_def Let_def filter_empty_conv)
  show ?thesis using 1 2 by blast
qed

theorem enabled_not_false_is_in_pool_witness:
  "loadAccountsConfig (example_config mixed_accounts None)
     = Some \<lparr> accounts = [mixed_accounts ! 0, mixed_accounts ! 2, mixed_accounts ! 3],
              rotation = None \<rparr>
   \<and> enabled_of (mixed_accounts ! 0) = None
   \<and> enabled_of (mixed_accounts ! 1) = Some (JBool False)
   \<and> enabled_of (mixed_accounts ! 2) = Some (JStr ''false'')
   \<and> enabled_of (mixed_accounts ! 3) = Some JNull"
proof -
  have ld: "loadAccountsConfig (example_config mixed_accounts None)
     = Some \<lparr> accounts = [mixed_accounts ! 0, mixed_accounts ! 2, mixed_accounts ! 3],
              rotation = None \<rparr>"
    by code_simp
  have en: "enabled_of (mixed_accounts ! 0) = None"
    "enabled_of (mixed_accounts ! 1) = Some (JBool False)"
    "enabled_of (mixed_accounts ! 2) = Some (JStr ''false'')"
    "enabled_of (mixed_accounts ! 3) = Some JNull"
    by code_simp+
  from enabled_not_false_is_in_pool
    [where source = "example_config mixed_accounts None"
       and cfg = "\<lparr> accounts = [mixed_accounts ! 0, mixed_accounts ! 2, mixed_accounts ! 3],
                      rotation = None \<rparr>"
       and c = "\<lparr> cfg_accounts = Some (JArr mixed_accounts), cfg_rotation = None \<rparr>"
       and xs = mixed_accounts and acc = "mixed_accounts ! 0"]
  have "\<exists>c xs. example_config mixed_accounts None = Parsed c \<and> cfg_accounts c = Some (JArr xs)
         \<and> [mixed_accounts ! 0, mixed_accounts ! 2, mixed_accounts ! 3]
            = filter (\<lambda>a. enabled_of a \<noteq> Some (JBool False)) xs"
    using ld by simp
  with ld en show ?thesis by blast
qed


text \<open>
  Where the names sort as the clock readings do, the retention does keep the last five
  backups: start from a directory with a session file, and let six or more persists
  follow at strictly increasing clock readings that all print with the same number of
  digits, every backup name already in the directory being smaller, as a string, than the
  first new one. Then exactly five backup files remain, and they are the backups made by
  the last five persists: each holds the session file as it was just before its persist.
\<close>

theorem backup_retention_five:
  assumes "distinct (map fst d)"
    and "map_of d COOKIES_OUTPUT_PATH = Some s"
    and "sorted_wrt (<) (map fst runs)"
    and "\<forall>r \<in> set runs. length (decimal (fst r)) = k"
    and "\<forall>f \<in> set (backup_names d). f < backupPath (fst (hd runs))"
    and "6 \<le> length runs"
  shows "length (backup_files (persist_all d runs)) = 5
    \<and> set (backup_files (persist_all d runs))
        = set (drop (length runs - 5)
            (zip (map (\<lambda>r. backupPath (fst r)) runs) (s # map (\<lambda>r. CookieJson (snd r)) runs)))
    \<and> backup_names (persist_all d runs)
        = rev (drop (length runs - 5) (map (\<lambda>r. backupPath (fst r)) runs))"
proof -
  let ?names = "map (\<lambda>r. backupPath (fst r)) runs"
  let ?Z = "zip ?names (s # map (\<lambda>r. CookieJson (snd r)) runs)"
  have ne: "runs \<noteq> []" using assms(6) by auto
  have "sorted_wrt (\<lambda>x y. fst x < fst y) runs"
    using assms(3) by (simp add: sorted_wrt_map)
  then have "sorted_wrt (\<lambda>x y. backupPath (fst x) < backupPath (fst y)) runs"
  proof (rule sorted_wrt_mono_rel [rotated])
    fix x y assume "x \<in> set runs" "y \<in> set runs" "fst x < fst y"
    moreover from this assms(4) have "length (decimal (fst x)) = length (decimal (fst y))"
      by simp
    ultimately show "backupPath (fst x) < backupPath (fst y)"
      by (intro backupPath_mono)
  qed
  then have srt: "sorted_wrt (<) ?names"
    by (simp add: sorted_wrt_map)
  have old: "\<forall>f \<in> set (backup_names d). \<forall>r \<in> set runs. f < backupPath (fst r)"
  proof (intro ballI)
    fix f r assume f: "f \<in> set (backup_names d)" and r: "r \<in> set runs"
    obtain h tl where runs: "runs = h # tl" using ne by (cases runs) auto
    have "backupPath (fst h) \<le> backupPath (fst r)"
      using srt r unfolding runs by auto
    moreover have "f < backupPath (fst h)" using assms(5) f runs by simp
    ultimately show "f < backupPath (fst r)" by simp
  qed
  note P = persist_all_backups [OF assms(1,2) srt old]
  have dist: "distinct (map fst (persist_all d runs))" using P by blast
  have lenZ: "length ?Z = length runs" by simp
  have "backup_list (persist_all d runs) = take 5 (rev ?Z @ backup_list d)"
    using P ne by blast
  also have "\<dots> = take 5 (rev ?Z)"
    using assms(6) lenZ by simp
  also have "\<dots> = rev (drop (length runs - 5) ?Z)"
    unfolding take_rev lenZ ..
  finally have bl: "backup_list (persist_all d runs) = rev (drop (length runs - 5) ?Z)" .
  have "backup_names (persist_all d runs) = take 5 (rev ?names @ backup_names d)"
    using P ne by blast
  also have "\<dots> = take 5 (rev ?names)"
    using assms(6) by simp
  also have "\<dots> = rev (drop (length runs - 5) ?names)"
    unfolding take_rev by simp
  finally have bn: "backup_names (persist_all d runs) = rev (drop (length runs - 5) ?names)" .
  have "length (backup_files (persist_all d runs)) = 5"
    unfolding backup_files_list(2) [OF dist] bl using assms(6) by simp
  moreover have "set (backup_files (persist_all d runs)) = set (drop (length runs - 5) ?Z)"
    unfolding backup_files_list(1) [OF dist] bl by simp
  ultimately show ?thesis using bn by blast
qed

theorem backup_retention_five_witness:
  "6 \<le> length example_runs
   \<and> sorted_wrt (<) (map fst example_runs)
   \<and> length (backup_files (persist_all old_session example_runs)) = 5
   \<and> map fst (backup_files (persist_all old_session example_runs))
       = [''cookies.backup_3.json'', ''cookies.backup_4.json'', ''cookies.backup_5.json'',
          ''cookies.backup_6.json'', ''cookies.backup_7.json'']
   \<and> map_of (persist_all old_session example_runs) ''cookies.backup_3.json''
       = Some (CookieJson (snd (example_runs ! 1)))"
proof -
  have h1: "distinct (map fst old_session)"
    by (simp add: old_session_def)
  have h2: "map_of old_session COOKIES_OUTPUT_PATH = Some (OtherText ''[]'')"
    by (simp add: old_session_def COOKIES_OUTPUT_PATH_def)
  have h3: "sorted_wrt (<) (map fst example_runs)"
    by code_simp
  have h4: "\<forall>r \<in> set example_runs. length (decimal (fst r)) = 1"
    by code_simp
  have "backup_names old_session = []"
    by code_simp
  then have h5: "\<forall>f \<in> set (backup_names old_session). f < backupPath (fst (hd example_runs))"
    by simp
  have h6: "6 \<le> length example_runs"
    by code_simp
  have names: "map fst (backup_files (persist_all old_session example_runs))
       = [''cookies.backup_3.json'', ''cookies.backup_4.json'', ''cookies.backup_5.json'',
          ''cookies.backup_6.json'', ''cookies.backup_7.json'']"
    by code_simp
  have third: "map_of (persist_all old_session example_runs) ''cookies.backup_3.json''
       = Some (CookieJson (snd (example_runs ! 1)))"
    by code_simp
  from backup_retention_five [OF h1 h2 h3 h4 h5 h6]
  have "length (backup_files (persist_all old_session example_runs)) = 5" by blast
  with h3 h6 names third show ?thesis by blast
qed

end
